theory Spec2Isabelle
  imports Main "HOL-Library.Word" "HOL-Library.Signed_Division" "HOL-Library.Sublist"
begin

unbundle bit_operations_syntax

section \<open>Data model of \<open>reqtest\<close>\<close>

text \<open>
  The program is Go. Its \<open>int\<close> and \<open>uint\<close> are taken at 64 bits, the width they have
  on amd64 and arm64; \<open>time.Duration\<close> is an \<open>int64\<close> everywhere. Signed comparisons
  are \<open>\<le>s\<close> and \<open><s\<close>, unsigned ones \<open>\<le>\<close> and \<open><\<close>. A build for a 32-bit target,
  where \<open>1 << 31\<close> is negative, is not covered.
\<close>

type_synonym goint = "64 word"
type_synonym gouint = "64 word"
type_synonym duration = "64 word"
type_synonym byte = "8 word"

text \<open>
  The three package-level flags (\<open>main.go\<close>, lines 17-21). Each is a pointer that the
  code compares with \<open>nil\<close> before reading it, so each is an option here.
\<close>

record flags =
  respDelay :: "duration option"
  sendStartStep :: "goint option"
  sendEndStep :: "goint option"

definition flag_defaults :: flags where
  "flag_defaults = \<lparr>respDelay = Some 0, sendStartStep = Some 1, sendEndStep = Some 25\<rparr>"

text \<open>The request that \<open>send\<close> builds with \<open>http.NewRequest\<close>.\<close>

record request =
  req_method :: string
  req_url :: string
  req_body :: string

text \<open>
  A request as the handler of \<open>listen\<close> sees it: the method, and what
  \<open>io.ReadAll(r.Body)\<close> yields, namely the bytes read and the error that ended the
  read, if any.
\<close>

record incoming =
  in_method :: string
  in_body :: "byte list"
  in_err :: "string option"

text \<open>Every error value the two subcommands return, one constructor per return site.\<close>

datatype go_error =
    ListenArgs                \<comment> \<open>\<open>listen expects exactly 1 argument\<close>\<close>
  | ServeFailed string        \<comment> \<open>what \<open>http.ListenAndServe\<close> returned\<close>
  | SendArgs                  \<comment> \<open>\<open>send expects exactly 1 argument\<close>\<close>
  | StartStepTooBig           \<comment> \<open>\<open>start-step cannot be greater than 31\<close>\<close>
  | EndStepTooBig             \<comment> \<open>\<open>end-step cannot be greater than 31\<close>\<close>
  | EndBeforeStart            \<comment> \<open>\<open>end-step cannot be less than start-step\<close>\<close>
  | GenerateBytes string      \<comment> \<open>\<open>failed to generate bytes: %w\<close>\<close>
  | MakeRequest string        \<comment> \<open>\<open>could make request: %w\<close>\<close>
  | ExecuteRequest string     \<comment> \<open>\<open>could not execute request: %w\<close>\<close>
  | Not200 goint              \<comment> \<open>\<open>did not get 200 response, got %v\<close>\<close>

text \<open>
  How a call ends: it returns its \<open>error\<close> (\<open>None\<close> is \<open>nil\<close>), it panics, or, for
  \<open>listen\<close>, it stays inside \<open>http.ListenAndServe\<close>.
\<close>

datatype outcome = Return "go_error option" | Panic | Serving

text \<open>The lines written with \<open>log.Printf\<close> and \<open>log.Println\<close>.\<close>

datatype log_line =
    ReceivedRequest           \<comment> \<open>\<open>received request\<close>\<close>
  | Waiting duration          \<comment> \<open>\<open>waiting %s before reading/responding...\<close>\<close>
  | ErrorReadingBody string   \<comment> \<open>\<open>error reading body: %v\<close>\<close>
  | ReadBytes nat             \<comment> \<open>\<open>read %v bytes from body\<close>\<close>
  | ListeningOn string        \<comment> \<open>\<open>listening on %v\<close>\<close>
  | SendingBytes goint        \<comment> \<open>\<open>sending %v bytes\<close>\<close>

text \<open>The observable effects, in the order the code performs them.\<close>

datatype event =
    PrintUsage
  | Log log_line
  | Sleep duration
  | ReadAll nat "string option"       \<comment> \<open>\<open>io.ReadAll\<close>: bytes read, error\<close>
  | WriteHeader goint
  | HandleFunc string
  | ListenAndServe string
  | HttpDo request "string + goint"   \<comment> \<open>\<open>client.Do\<close>: transport error or status\<close>

text \<open>
  What \<open>send\<close> cannot decide itself: the bytes \<open>crypto/rand\<close> delivers and whether its
  \<open>k\<close>-th call fails, whether \<open>http.NewRequest\<close> accepts the address, and how the
  \<open>k\<close>-th \<open>client.Do\<close> ends. The client's \<open>Timeout\<close> only changes which answer the
  transport gives.
\<close>

record env =
  rand_stream :: "nat \<Rightarrow> byte"
  rand_fail :: "nat \<Rightarrow> string option"
  url_error :: "string \<Rightarrow> string option"
  client_do :: "nat \<Rightarrow> request \<Rightarrow> string + goint"

record world =
  events :: "event list"
  rand_pos :: nat
  rand_calls :: nat
  do_calls :: nat

definition world0 :: world where
  "world0 = \<lparr>events = [], rand_pos = 0, rand_calls = 0, do_calls = 0\<rparr>"

definition emit :: "event \<Rightarrow> world \<Rightarrow> world" where
  "emit e w = w\<lparr>events := events w @ [e]\<rparr>"

section \<open>Library calls\<close>

text \<open>
  \<open>hex.EncodeToString\<close> of \<open>encoding/hex\<close>: two characters of
  \<open>hextable\<close> per byte, the high nibble first.
\<close>

definition hextable :: string where
  "hextable = ''0123456789abcdef''"

fun EncodeToString :: "byte list \<Rightarrow> string" where
  "EncodeToString [] = []"
| "EncodeToString (v # vs) =
     hextable ! unat (drop_bit 4 v) # hextable ! unat (v AND 15) # EncodeToString vs"

text \<open>
  \<open>rand.Read(b)\<close> on a slice of \<open>n\<close> bytes: it fails, or it fills the slice with the
  next \<open>n\<close> bytes of the entropy source.
\<close>

definition rand_Read :: "env \<Rightarrow> nat \<Rightarrow> world \<Rightarrow> (string + byte list) \<times> world" where
  "rand_Read env n w =
     (case rand_fail env (rand_calls w) of
        Some e \<Rightarrow> (Inl e, w\<lparr>rand_calls := Suc (rand_calls w)\<rparr>)
      | None \<Rightarrow>
          (Inr (map (rand_stream env) [rand_pos w ..< rand_pos w + n]),
           w\<lparr>rand_pos := rand_pos w + n, rand_calls := Suc (rand_calls w)\<rparr>))"

definition NewRequest :: "env \<Rightarrow> string \<Rightarrow> string \<Rightarrow> string \<Rightarrow> string + request" where
  "NewRequest env m u b =
     (case url_error env u of
        Some e \<Rightarrow> Inl e
      | None \<Rightarrow> Inr \<lparr>req_method = m, req_url = u, req_body = b\<rparr>)"

definition Do :: "env \<Rightarrow> request \<Rightarrow> world \<Rightarrow> (string + goint) \<times> world" where
  "Do env req w =
     (let r = client_do env (do_calls w) req
      in (r, emit (HttpDo req r) (w\<lparr>do_calls := Suc (do_calls w)\<rparr>)))"

section \<open>\<open>send\<close>\<close>

text \<open>
  One pass through the body of the \<open>for\<close> loop (\<open>main.go\<close>, lines 127-148, and the
  same lines of the older copy): either the function ends there, or the loop goes on.
  \<open>bytesToSend/2\<close> is Go's truncating division, and \<open>make\<close> panics on a negative
  length. A length that exceeds the memory of the machine is not modelled.
\<close>

datatype step = Exit outcome | Continue

definition loop_body :: "env \<Rightarrow> string \<Rightarrow> goint \<Rightarrow> world \<Rightarrow> step \<times> world" where
  "loop_body env addr bytesToSend w =
     (let w1 = emit (Log (SendingBytes bytesToSend)) w;
          n = sint bytesToSend sdiv 2
      in if n < 0 then (Exit Panic, w1)
         else case rand_Read env (nat n) w1 of
           (Inl e, w2) \<Rightarrow> (Exit (Return (Some (GenerateBytes e))), w2)
         | (Inr b, w2) \<Rightarrow>
             (let bodyStr = EncodeToString b
              in case NewRequest env ''PUT'' addr bodyStr of
                   Inl e \<Rightarrow> (Exit (Return (Some (MakeRequest e))), w2)
                 | Inr req \<Rightarrow>
                     (case Do env req w2 of
                        (Inl e, w3) \<Rightarrow> (Exit (Return (Some (ExecuteRequest e))), w3)
                      | (Inr status, w3) \<Rightarrow>
                          if status \<noteq> 200 then (Exit (Return (Some (Not200 status))), w3)
                          else (Continue, w3))))"

text \<open>
  The loop \<open>for bytesToSend <= maxBytes { ...; bytesToSend <<= 1 }\<close>. Nothing in the
  loop itself bounds the number of passes (from \<open>bytesToSend = 0\<close> it never ends against
  a server that always answers 200), so not returning is the value \<open>None\<close>.
\<close>

partial_function (option) send_loop ::
  "env \<Rightarrow> string \<Rightarrow> goint \<Rightarrow> goint \<Rightarrow> world \<Rightarrow> (outcome \<times> world) option" where
  "send_loop env addr maxBytes bytesToSend w =
     (if bytesToSend \<le>s maxBytes then
        (case loop_body env addr bytesToSend w of
           (Exit r, w') \<Rightarrow> Some (r, w')
         | (Continue, w') \<Rightarrow> send_loop env addr maxBytes (push_bit 1 bytesToSend) w')
      else Some (Return None, w))"

declare send_loop.simps [code]

text \<open>\<open>send\<close> of \<open>main.go\<close> (lines 94-152).\<close>

definition send :: "env \<Rightarrow> flags \<Rightarrow> string list \<Rightarrow> world \<Rightarrow> (outcome \<times> world) option" where
  "send env fl args w =
     (case args of
        [addr] \<Rightarrow>
          (case (case sendStartStep fl of
                   Some s \<Rightarrow>
                     if 0 <s s then (if 32 \<le>s s then Inl StartStepTooBig else Inr s)
                     else Inr (1 :: gouint)
                 | None \<Rightarrow> Inr 1) of
             Inl e \<Rightarrow> Some (Return (Some e), w)
           | Inr start \<Rightarrow>
               (case (case sendEndStep fl of
                        Some s \<Rightarrow>
                          if 0 <s s then (if 32 \<le>s s then Inl EndStepTooBig else Inr s)
                          else Inr (25 :: gouint)
                      | None \<Rightarrow> Inr 25) of
                  Inl e \<Rightarrow> Some (Return (Some e), w)
                | Inr end \<Rightarrow>
                    if end < start then Some (Return (Some EndBeforeStart), w)
                    else
                      (let maxBytes = push_bit (unat end) (1 :: goint);
                           bytesToSend = push_bit (unat start) (1 :: goint)
                       in send_loop env addr maxBytes bytesToSend w)))
      | _ \<Rightarrow> Some (Return (Some SendArgs), emit PrintUsage w))"

text \<open>
  \<open>send\<close> of the older copy of the program (the second source file, lines 85-123):
  no flags, the bounds are the constants \<open>1 << 25\<close> and \<open>1 << 2\<close>.
\<close>

definition send_fixed :: "env \<Rightarrow> string list \<Rightarrow> world \<Rightarrow> (outcome \<times> world) option" where
  "send_fixed env args w =
     (case args of
        [addr] \<Rightarrow>
          (let maxBytes = push_bit 25 (1 :: goint);
               bytesToSend = push_bit 2 (1 :: goint)
           in send_loop env addr maxBytes bytesToSend w)
      | _ \<Rightarrow> Some (Return (Some SendArgs), emit PrintUsage w))"

section \<open>\<open>listen\<close>\<close>

text \<open>The handler that \<open>listen\<close> of \<open>main.go\<close> registers (lines 68-88).\<close>

definition handler :: "flags \<Rightarrow> incoming \<Rightarrow> event list \<Rightarrow> event list" where
  "handler fl r tr =
     (if in_method r = ''GET'' then tr
      else
        (let tr1 = tr @ [Log ReceivedRequest];
             tr2 = (case respDelay fl of
                      Some d \<Rightarrow> if 0 <s d then tr1 @ [Log (Waiting d), Sleep d] else tr1
                    | None \<Rightarrow> tr1);
             tr3 = tr2 @ [ReadAll (length (in_body r)) (in_err r)]
         in case in_err r of
              Some e \<Rightarrow> tr3 @ [Log (ErrorReadingBody e), WriteHeader 500]
            | None \<Rightarrow> tr3 @ [Log (ReadBytes (length (in_body r)))]))"

text \<open>The handler of the older copy (lines 64-79): the same without the test for GET.\<close>

definition handler_fixed :: "flags \<Rightarrow> incoming \<Rightarrow> event list \<Rightarrow> event list" where
  "handler_fixed fl r tr =
     (let tr1 = tr @ [Log ReceivedRequest];
          tr2 = (case respDelay fl of
                   Some d \<Rightarrow> if 0 <s d then tr1 @ [Log (Waiting d), Sleep d] else tr1
                 | None \<Rightarrow> tr1);
          tr3 = tr2 @ [ReadAll (length (in_body r)) (in_err r)]
      in case in_err r of
           Some e \<Rightarrow> tr3 @ [Log (ErrorReadingBody e), WriteHeader 500]
         | None \<Rightarrow> tr3 @ [Log (ReadBytes (length (in_body r)))])"

text \<open>
  \<open>listen\<close> (lines 62-92). \<open>serve addr\<close> is what \<open>http.ListenAndServe\<close> does
  on that address: \<open>None\<close> while it keeps serving, otherwise the error it returns.
\<close>

definition listen ::
  "(string \<Rightarrow> string option) \<Rightarrow> string list \<Rightarrow> event list \<Rightarrow> outcome \<times> event list" where
  "listen serve args tr =
     (case args of
        [addr] \<Rightarrow>
          (let tr1 = tr @ [HandleFunc ''/'', Log (ListeningOn addr), ListenAndServe addr]
           in case serve addr of
                None \<Rightarrow> (Serving, tr1)
              | Some e \<Rightarrow> (Return (Some (ServeFailed e)), tr1))
      | _ \<Rightarrow> (Return (Some ListenArgs), tr @ [PrintUsage]))"

section \<open>Auxiliary definitions for the proofs\<close>

text \<open>
  The loop run over an explicit list of sizes, by structural recursion. It is shown
  below to be what \<open>send_loop\<close> computes between two powers of two.
\<close>

fun run_sizes :: "env \<Rightarrow> string \<Rightarrow> goint list \<Rightarrow> world \<Rightarrow> outcome \<times> world" where
  "run_sizes env addr [] w = (Return None, w)"
| "run_sizes env addr (n # ns) w =
     (case loop_body env addr n w of
        (Exit r, w') \<Rightarrow> (r, w')
      | (Continue, w') \<Rightarrow> run_sizes env addr ns w')"

definition powers :: "nat \<Rightarrow> nat \<Rightarrow> goint list" where
  "powers s e = map (\<lambda>i. 2 ^ i) [s ..< Suc e]"

text \<open>What a trace shows: the requests with their results, and the sizes announced.\<close>

fun puts :: "event list \<Rightarrow> (request \<times> (string + goint)) list" where
  "puts [] = []"
| "puts (HttpDo r x # es) = (r, x) # puts es"
| "puts (_ # es) = puts es"

fun sendings :: "event list \<Rightarrow> goint list" where
  "sendings [] = []"
| "sendings (Log (SendingBytes n) # es) = n # sendings es"
| "sendings (_ # es) = sendings es"

definition sent_sizes :: "event list \<Rightarrow> nat list" where
  "sent_sizes tr = map (\<lambda>p. length (req_body (fst p))) (puts tr)"

text \<open>A request fails by a transport error or by a status other than 200.\<close>

definition failed :: "string + goint \<Rightarrow> bool" where
  "failed x = (case x of Inl _ \<Rightarrow> True | Inr status \<Rightarrow> status \<noteq> 200)"

text \<open>The request one pass builds for the size \<open>n\<close> when the entropy source is at \<open>pos\<close>.\<close>

definition put_request :: "env \<Rightarrow> string \<Rightarrow> goint \<Rightarrow> nat \<Rightarrow> request" where
  "put_request env addr n pos =
     \<lparr>req_method = ''PUT'', req_url = addr,
      req_body = EncodeToString (map (rand_stream env) [pos ..< pos + nat (sint n sdiv 2)])\<rparr>"

definition body_len :: "goint \<Rightarrow> nat" where
  "body_len n = 2 * nat (sint n sdiv 2)"

text \<open>The traces the loop can leave over a list of sizes, with the outcome of each.\<close>

inductive trace_of :: "env \<Rightarrow> string \<Rightarrow> goint list \<Rightarrow> outcome \<Rightarrow> event list \<Rightarrow> bool"
  for env :: env and addr :: string where
  finished: "trace_of env addr [] (Return None) []"
| rand_fails: "rand_fail env k = Some e \<Longrightarrow>
    trace_of env addr (n # ns) (Return (Some (GenerateBytes e))) [Log (SendingBytes n)]"
| url_fails: "url_error env addr = Some e \<Longrightarrow>
    trace_of env addr (n # ns) (Return (Some (MakeRequest e))) [Log (SendingBytes n)]"
| request_fails: "res = client_do env k (put_request env addr n pos) \<Longrightarrow> failed res \<Longrightarrow>
    trace_of env addr (n # ns) (Return (Some err))
      [Log (SendingBytes n), HttpDo (put_request env addr n pos) res]"
| request_ok: "client_do env k (put_request env addr n pos) = Inr 200 \<Longrightarrow>
    trace_of env addr ns r tr \<Longrightarrow>
    trace_of env addr (n # ns) r
      (Log (SendingBytes n) # HttpDo (put_request env addr n pos) (Inr 200) # tr)"

text \<open>
  What the handler's trace shows. \<open>net/http\<close> answers with the status of the first
  \<open>WriteHeader\<close> call, and with 200 when the handler returns without one.
\<close>

fun is_read :: "event \<Rightarrow> bool" where
  "is_read (ReadAll n err) = True"
| "is_read _ = False"

definition before_read :: "event list \<Rightarrow> event list" where
  "before_read tr = takeWhile (\<lambda>e. \<not> is_read e) tr"

fun written_status :: "event list \<Rightarrow> goint option" where
  "written_status [] = None"
| "written_status (WriteHeader c # es) = Some c"
| "written_status (_ # es) = written_status es"

definition response_status :: "event list \<Rightarrow> goint" where
  "response_status tr = (case written_status tr of None \<Rightarrow> 200 | Some c \<Rightarrow> c)"

text \<open>Concrete surroundings for the examples: a server that always answers 200, and one
  that answers 503 to the second request.\<close>

definition ok_env :: env where
  "ok_env = \<lparr>rand_stream = (\<lambda>i. of_nat i), rand_fail = (\<lambda>k. None),
             url_error = (\<lambda>u. None), client_do = (\<lambda>k q. Inr 200)\<rparr>"

definition flaky_env :: env where
  "flaky_env = \<lparr>rand_stream = (\<lambda>i. of_nat i), rand_fail = (\<lambda>k. None),
             url_error = (\<lambda>u. None),
             client_do = (\<lambda>k q. if k = 1 then Inr 503 else Inr 200)\<rparr>"

definition steps :: "goint \<Rightarrow> goint \<Rightarrow> flags" where
  "steps s e = \<lparr>respDelay = Some 0, sendStartStep = Some s, sendEndStep = Some e\<rparr>"

section \<open>Powers of two in 64 bits\<close>

lemma sint_pow2: "k < 63 \<Longrightarrow> sint (2 ^ k :: goint) = 2 ^ k"
proof -
  assume k: "k < 63"
  have "(2 ^ k :: goint) = word_of_int (2 ^ k)" by simp
  then have "sint (2 ^ k :: goint) = signed_take_bit 63 (2 ^ k :: int)"
    by (simp only: sint_sbintrunc') simp
  also have "\<dots> = 2 ^ k"
  proof (rule signed_take_bit_int_eq_self)
    have "(0 :: int) \<le> 2 ^ k" by simp
    moreover have "- (2 ^ 63) \<le> (0 :: int)" by simp
    ultimately show "- (2 ^ 63) \<le> (2 ^ k :: int)" by (rule order_trans [rotated])
    show "(2 ^ k :: int) < 2 ^ 63" by (rule power_strict_increasing) (use k in auto)
  qed
  finally show ?thesis .
qed

lemma push_bit_one: "push_bit k (1 :: goint) = 2 ^ k"
  by (simp add: push_bit_eq_mult)

lemma shl_pow2: "push_bit 1 (2 ^ k :: goint) = 2 ^ Suc k"
  by (simp add: push_bit_eq_mult)

lemma pow2_sle: "k < 63 \<Longrightarrow> e < 63 \<Longrightarrow> (2 ^ k :: goint) \<le>s 2 ^ e \<longleftrightarrow> k \<le> e"
  by (simp add: word_sle_eq sint_pow2)

lemma powers_step: "k \<le> e \<Longrightarrow> powers k e = 2 ^ k # powers (Suc k) e"
  by (simp add: powers_def upt_conv_Cons del: upt_Suc)

lemma powers_empty: "e < k \<Longrightarrow> powers k e = []"
  by (simp add: powers_def)

lemma send_loop_powers:
  "e < 62 \<Longrightarrow> k \<le> Suc e \<Longrightarrow>
   send_loop env addr (2 ^ e) (2 ^ k) w = Some (run_sizes env addr (powers k e) w)"
proof (induction "Suc e - k" arbitrary: k w)
  case 0
  then have k: "k = Suc e" by simp
  have "\<not> (2 ^ k :: goint) \<le>s 2 ^ e"
    using pow2_sle [of k e] 0 k by simp
  then show ?case
    by (subst send_loop.simps) (simp add: powers_empty k)
next
  case (Suc d)
  then have k: "k \<le> e" by simp
  have le: "(2 ^ k :: goint) \<le>s 2 ^ e"
    using pow2_sle [of k e] Suc.prems k by simp
  have IH: "send_loop env addr (2 ^ e) (2 ^ k * 2) w' =
      Some (run_sizes env addr (powers (Suc k) e) w')" for w'
    using Suc.hyps(1) [of "Suc k" w'] Suc.hyps(2) Suc.prems k by (simp add: mult.commute)
  show ?case
    by (subst send_loop.simps)
       (simp add: le powers_step [OF k] shl_pow2 IH split: prod.split step.split)
qed


section \<open>The step flags\<close>

lemma uint_of_nonneg:
  fixes s :: goint
  assumes "0 \<le> sint s"
  shows "uint s = sint s"
proof -
  have "sint s < 2 ^ 63" using sint_lt [of s] by simp
  then have "sint s < 2 ^ 64" by simp
  with assms have "take_bit 64 (sint s) = sint s"
    by (simp add: take_bit_int_eq_self)
  then show ?thesis using uint_sint [of s] by simp
qed

lemma unat_of_nonneg:
  fixes s :: goint
  assumes "0 \<le> sint s"
  shows "unat s = nat (sint s)"
  using uint_of_nonneg [OF assms] nat_uint_eq [of s] by simp

lemma step_flag_range:
  fixes s :: goint
  assumes "0 <s s" "\<not> 32 \<le>s s"
  shows "0 < unat s \<and> unat s < 32"
proof -
  from assms have "0 < sint s" "sint s < 32"
    by (simp_all add: word_sless_alt word_sle_eq)
  then show ?thesis using unat_of_nonneg [of s] by simp
qed

lemma send_flags_cases:
  "send env fl [addr] w = Some (Return (Some StartStepTooBig), w) \<or>
   send env fl [addr] w = Some (Return (Some EndStepTooBig), w) \<or>
   send env fl [addr] w = Some (Return (Some EndBeforeStart), w) \<or>
   (\<exists>s e. 0 < s \<and> s \<le> e \<and> e < 32 \<and>
      send env fl [addr] w = Some (run_sizes env addr (powers s e) w))"
proof -
  define sr :: "go_error + gouint" where
    "sr = (case sendStartStep fl of
             Some s \<Rightarrow> if 0 <s s then (if 32 \<le>s s then Inl StartStepTooBig else Inr s) else Inr 1
           | None \<Rightarrow> Inr 1)"
  define er :: "go_error + gouint" where
    "er = (case sendEndStep fl of
             Some s \<Rightarrow> if 0 <s s then (if 32 \<le>s s then Inl EndStepTooBig else Inr s) else Inr 25
           | None \<Rightarrow> Inr 25)"
  have sr: "sr = Inl StartStepTooBig \<or> (\<exists>st. sr = Inr st \<and> 0 < unat st \<and> unat st < 32)"
    by (auto simp: sr_def step_flag_range split: option.split)
  have er: "er = Inl EndStepTooBig \<or> (\<exists>en. er = Inr en \<and> 0 < unat en \<and> unat en < 32)"
    by (auto simp: er_def step_flag_range split: option.split)
  have unfold: "send env fl [addr] w =
      (case sr of
         Inl e \<Rightarrow> Some (Return (Some e), w)
       | Inr start \<Rightarrow>
           (case er of
              Inl e \<Rightarrow> Some (Return (Some e), w)
            | Inr end \<Rightarrow>
                if end < start then Some (Return (Some EndBeforeStart), w)
                else send_loop env addr (push_bit (unat end) 1) (push_bit (unat start) 1) w))"
    unfolding send_def sr_def er_def Let_def by simp
  from sr show ?thesis
  proof
    assume "sr = Inl StartStepTooBig"
    then show ?thesis by (simp add: unfold)
  next
    assume "\<exists>st. sr = Inr st \<and> 0 < unat st \<and> unat st < 32"
    then obtain st where st: "sr = Inr st" "0 < unat st" "unat st < 32" by blast
    from er show ?thesis
    proof
      assume "er = Inl EndStepTooBig"
      then show ?thesis by (simp add: unfold st)
    next
      assume "\<exists>en. er = Inr en \<and> 0 < unat en \<and> unat en < 32"
      then obtain en where en: "er = Inr en" "0 < unat en" "unat en < 32" by blast
      show ?thesis
      proof (cases "en < st")
        case True
        then show ?thesis by (simp add: unfold st en)
      next
        case False
        then have le: "unat st \<le> unat en" by (simp add: word_less_nat_alt)
        have "send_loop env addr (2 ^ unat en) (2 ^ unat st) w =
            Some (run_sizes env addr (powers (unat st) (unat en)) w)"
          by (rule send_loop_powers) (use le en(3) in simp_all)
        then have "send env fl [addr] w =
            Some (run_sizes env addr (powers (unat st) (unat en)) w)"
          using False by (simp add: unfold st(1) en(1) push_bit_one)
        with st(2) le en(3) show ?thesis by blast
      qed
    qed
  qed
qed

lemma send_valid:
  assumes "sendStartStep fl = Some s" "sendEndStep fl = Some e"
    and "0 <s s" "s \<le>s e" "e <s 32"
  shows "send env fl [addr] w = Some (run_sizes env addr (powers (unat s) (unat e)) w)"
proof -
  from assms have ss: "0 < sint s" "sint s \<le> sint e" "sint e < 32"
    by (simp_all add: word_sless_alt word_sle_eq)
  then have f: "\<not> 32 \<le>s s" "0 <s e" "\<not> 32 \<le>s e"
    by (simp_all add: word_sless_alt word_sle_eq)
  from ss have u: "unat s \<le> unat e" "unat e < 32"
    using unat_of_nonneg [of s] unat_of_nonneg [of e] by simp_all
  then have nl: "\<not> e < s" by (simp add: word_less_nat_alt)
  have "send_loop env addr (2 ^ unat e) (2 ^ unat s) w =
      Some (run_sizes env addr (powers (unat s) (unat e)) w)"
    by (rule send_loop_powers) (use u in simp_all)
  then show ?thesis
    by (simp add: send_def assms(1,2) assms(3) f nl push_bit_one)
qed


section \<open>Traces and the hexadecimal encoding\<close>

lemma length_EncodeToString: "length (EncodeToString bs) = 2 * length bs"
  by (induction bs) simp_all

lemma nibble_hi: "unat (drop_bit 4 (v :: byte)) < 16"
proof -
  have "unat (drop_bit 4 v) = unat v div 2 ^ 4"
    by (subst unat_drop_bit_eq) (rule drop_bit_eq_div)
  moreover have "unat v < 2 ^ 8" using unsigned_less [of v] by simp
  ultimately show ?thesis by simp
qed

lemma nibble_lo: "unat ((v :: byte) AND 15) < 16"
proof -
  have "v AND 15 = take_bit 4 v"
    using take_bit_eq_mask [of 4 v] by (simp add: mask_eq_exp_minus_1)
  then have "unat (v AND 15) = take_bit 4 (unat v)"
    by (simp only: unsigned_take_bit_eq)
  also have "\<dots> < 2 ^ 4" by (rule take_bit_nat_less_exp)
  finally show ?thesis by simp
qed

lemma hextable_nth: "k < 16 \<Longrightarrow> hextable ! k \<in> set hextable"
  by (rule nth_mem) (simp add: hextable_def)

lemma set_EncodeToString_hextable: "set (EncodeToString bs) \<subseteq> set hextable"
proof (induction bs)
  case Nil
  show ?case by simp
next
  case (Cons v vs)
  have "hextable ! unat (drop_bit 4 v) \<in> set hextable"
    by (rule hextable_nth [OF nibble_hi])
  moreover have "hextable ! unat (v AND 15) \<in> set hextable"
    by (rule hextable_nth [OF nibble_lo])
  ultimately show ?case using Cons.IH by simp
qed

lemma set_EncodeToString: "set (EncodeToString bs) \<subseteq> set ''0123456789abcdef''"
  using set_EncodeToString_hextable [of bs] by (simp only: hextable_def)


section \<open>One pass of the loop, and the loop over a list of sizes\<close>

lemma loop_body_cases [case_names RandFail UrlFail Failed Ok]:
  assumes n: "0 \<le> sint n"
  obtains
    (RandFail) e w' where
      "rand_fail env (rand_calls w) = Some e"
      "loop_body env addr n w = (Exit (Return (Some (GenerateBytes e))), w')"
      "events w' = events w @ [Log (SendingBytes n)]"
  | (UrlFail) e w' where
      "url_error env addr = Some e"
      "loop_body env addr n w = (Exit (Return (Some (MakeRequest e))), w')"
      "events w' = events w @ [Log (SendingBytes n)]"
  | (Failed) res err w' where
      "res = client_do env (do_calls w) (put_request env addr n (rand_pos w))"
      "failed res"
      "loop_body env addr n w = (Exit (Return (Some err)), w')"
      "events w' = events w @ [Log (SendingBytes n), HttpDo (put_request env addr n (rand_pos w)) res]"
  | (Ok) w' where
      "client_do env (do_calls w) (put_request env addr n (rand_pos w)) = Inr 200"
      "loop_body env addr n w = (Continue, w')"
      "events w' = events w @ [Log (SendingBytes n), HttpDo (put_request env addr n (rand_pos w)) (Inr 200)]"
proof -
  have nn: "\<not> sint n sdiv 2 < 0"
    using n by (simp add: signed_divide_int_def sgn_if)
  let ?req = "put_request env addr n (rand_pos w)"
  let ?w1 = "emit (Log (SendingBytes n)) w"
  show thesis
  proof (cases "rand_fail env (rand_calls w)")
    case (Some e)
    have "loop_body env addr n w =
        (Exit (Return (Some (GenerateBytes e))), ?w1\<lparr>rand_calls := Suc (rand_calls w)\<rparr>)"
      by (simp add: loop_body_def rand_Read_def emit_def Let_def nn Some)
    then show thesis
      by (rule RandFail [OF Some]) (simp add: emit_def)
  next
    case None
    let ?w2 = "?w1\<lparr>rand_pos := rand_pos w + nat (sint n sdiv 2),
                    rand_calls := Suc (rand_calls w)\<rparr>"
    show thesis
    proof (cases "url_error env addr")
      case (Some e)
      have "loop_body env addr n w = (Exit (Return (Some (MakeRequest e))), ?w2)"
        by (simp add: loop_body_def rand_Read_def NewRequest_def emit_def Let_def nn None Some)
      then show thesis
        by (rule UrlFail [OF Some]) (simp add: emit_def)
    next
      case no_url: None
      let ?res = "client_do env (do_calls w) ?req"
      let ?w3 = "emit (HttpDo ?req ?res) (?w2\<lparr>do_calls := Suc (do_calls w)\<rparr>)"
      have lb: "loop_body env addr n w =
          (case ?res of
             Inl e \<Rightarrow> (Exit (Return (Some (ExecuteRequest e))), ?w3)
           | Inr status \<Rightarrow>
               if status \<noteq> 200 then (Exit (Return (Some (Not200 status))), ?w3)
               else (Continue, ?w3))"
        by (simp add: loop_body_def rand_Read_def NewRequest_def Do_def emit_def Let_def
            nn None no_url put_request_def split: sum.split)
      show thesis
      proof (cases ?res)
        case (Inl e)
        have "failed ?res" by (simp add: Inl failed_def)
        moreover have "loop_body env addr n w = (Exit (Return (Some (ExecuteRequest e))), ?w3)"
          by (simp add: lb Inl)
        ultimately show thesis
          by (rule Failed [OF refl]) (simp add: emit_def)
      next
        case (Inr status)
        show thesis
        proof (cases "status = 200")
          case True
          have "?res = Inr 200" by (simp add: Inr True)
          moreover have "loop_body env addr n w = (Continue, ?w3)"
            by (simp add: lb Inr True)
          ultimately show thesis
            by (rule Ok) (simp add: emit_def Inr True)
        next
          case False
          have "failed ?res" by (simp add: Inr False failed_def)
          moreover have "loop_body env addr n w = (Exit (Return (Some (Not200 status))), ?w3)"
            by (simp add: lb Inr False)
          ultimately show thesis
            by (rule Failed [OF refl]) (simp add: emit_def)
        qed
      qed
    qed
  qed
qed


lemma run_sizes_trace:
  assumes "\<forall>n\<in>set ns. 0 \<le> sint n" and "run_sizes env addr ns w = (r, w')"
  shows "\<exists>tr. events w' = events w @ tr \<and> trace_of env addr ns r tr"
  using assms
proof (induction ns arbitrary: w)
  case Nil
  then show ?case by (auto intro: trace_of.finished)
next
  case (Cons n ns)
  then have n: "0 \<le> sint n" by simp
  from n show ?case
  proof (cases rule: loop_body_cases [where env = env and addr = addr and w = w])
    case (RandFail e w1)
    with Cons.prems(2) have "r = Return (Some (GenerateBytes e))" "w' = w1" by simp_all
    with RandFail show ?thesis by (auto intro: trace_of.rand_fails)
  next
    case (UrlFail e w1)
    with Cons.prems(2) have "r = Return (Some (MakeRequest e))" "w' = w1" by simp_all
    with UrlFail show ?thesis by (auto intro: trace_of.url_fails)
  next
    case (Failed res err w1)
    with Cons.prems(2) have "r = Return (Some err)" "w' = w1" by simp_all
    with Failed show ?thesis by (auto intro: trace_of.request_fails)
  next
    case (Ok w1)
    with Cons.prems(2) have "run_sizes env addr ns w1 = (r, w')" by simp
    with Cons.IH [of w1] Cons.prems(1) obtain tr where
      tr: "events w' = events w1 @ tr" "trace_of env addr ns r tr" by auto
    from trace_of.request_ok [OF Ok(1) tr(2)] tr(1) Ok(3) show ?thesis by simp
  qed
qed

lemma trace_of_returns: "trace_of env addr ns r tr \<Longrightarrow> \<exists>x. r = Return x"
  by (induction rule: trace_of.induct) simp_all

lemma trace_of_sendings: "trace_of env addr ns r tr \<Longrightarrow> prefix (sendings tr) ns"
  by (induction rule: trace_of.induct) simp_all

lemma sent_sizes_put [simp]:
  "sent_sizes (HttpDo (put_request env addr n pos) res # tr) = body_len n # sent_sizes tr"
  by (simp add: sent_sizes_def put_request_def body_len_def length_EncodeToString)

lemma sent_sizes_simps [simp]:
  "sent_sizes [] = []" "sent_sizes (Log l # tr) = sent_sizes tr"
  by (simp_all add: sent_sizes_def)

lemma trace_of_sizes: "trace_of env addr ns r tr \<Longrightarrow> prefix (sent_sizes tr) (map body_len ns)"
  by (induction rule: trace_of.induct) simp_all

lemma trace_of_puts:
  "trace_of env addr ns r tr \<Longrightarrow>
   \<forall>p\<in>set (puts tr). \<exists>n\<in>set ns. \<exists>pos. fst p = put_request env addr n pos"
  by (induction rule: trace_of.induct) auto

lemma trace_of_nil:
  "trace_of env addr ns r tr \<Longrightarrow> r = Return None \<Longrightarrow>
   sendings tr = ns \<and> sent_sizes tr = map body_len ns \<and> (\<forall>p\<in>set (puts tr). snd p = Inr 200)"
  by (induction rule: trace_of.induct) auto

lemma trace_of_butlast:
  "trace_of env addr ns r tr \<Longrightarrow> \<forall>p\<in>set (butlast (puts tr)). snd p = Inr 200"
  by (induction rule: trace_of.induct) auto

lemma trace_of_error:
  "trace_of env addr ns r tr \<Longrightarrow> r \<noteq> Return None \<Longrightarrow>
   \<forall>k. rand_fail env k = None \<Longrightarrow> url_error env addr = None \<Longrightarrow>
   puts tr \<noteq> [] \<and> failed (snd (last (puts tr)))"
  by (induction rule: trace_of.induct) auto

lemma trace_of_all_ok:
  "trace_of env addr ns r tr \<Longrightarrow>
   \<forall>k. rand_fail env k = None \<Longrightarrow> url_error env addr = None \<Longrightarrow>
   \<forall>k q. client_do env k q = Inr 200 \<Longrightarrow> r = Return None"
  by (induction rule: trace_of.induct) (auto simp: failed_def)

section \<open>\<open>send\<close> with accepted flags\<close>

lemma sint_powers: "e < 63 \<Longrightarrow> \<forall>n\<in>set (powers s e). 0 \<le> sint n"
  by (auto simp: powers_def sint_pow2 simp del: upt_Suc)

lemma body_len_pow2: "0 < k \<Longrightarrow> k < 63 \<Longrightarrow> body_len (2 ^ k) = 2 ^ k"
proof -
  assume k: "0 < k" "k < 63"
  then obtain j where j: "k = Suc j" by (cases k) auto
  have s: "sint (2 ^ k :: goint) = 2 ^ k" by (rule sint_pow2 [OF k(2)])
  have "(2 ^ k :: int) sdiv 2 = 2 ^ j"
    by (simp add: j signed_divide_int_def sgn_if)
  then have "sint (2 ^ k :: goint) sdiv 2 = 2 ^ j" by (simp only: s)
  then have "body_len (2 ^ k) = 2 * nat (2 ^ j)" by (simp only: body_len_def)
  also have "\<dots> = 2 ^ k" by (simp add: j nat_power_eq)
  finally show ?thesis .
qed

lemma unat_pow2: "k < 63 \<Longrightarrow> unat (2 ^ k :: goint) = 2 ^ k"
  by (simp add: unat_of_nonneg sint_pow2 nat_power_eq)

lemma body_len_powers:
  "0 < s \<Longrightarrow> e < 63 \<Longrightarrow> map body_len (powers s e) = map (\<lambda>i. 2 ^ i) [s ..< Suc e]"
  by (simp add: powers_def body_len_pow2 del: upt_Suc)

lemma send_valid_trace:
  assumes "sendStartStep fl = Some s" "sendEndStep fl = Some e"
    and "0 <s s" "s \<le>s e" "e <s 32"
  shows "\<exists>x w' tr. send env fl [addr] w = Some (Return x, w') \<and> events w' = events w @ tr \<and>
           trace_of env addr (powers (unat s) (unat e)) (Return x) tr"
proof -
  from assms have "0 <s e" "\<not> 32 \<le>s e"
    by (simp_all add: word_sless_alt word_sle_eq)
  then have e: "unat e < 63" using step_flag_range [of e] by simp
  obtain r w' where run: "run_sizes env addr (powers (unat s) (unat e)) w = (r, w')"
    by (cases "run_sizes env addr (powers (unat s) (unat e)) w")
  from run_sizes_trace [OF sint_powers [OF e] run] obtain tr where
    tr: "events w' = events w @ tr" "trace_of env addr (powers (unat s) (unat e)) r tr"
    by blast
  from trace_of_returns [OF tr(2)] obtain x where "r = Return x" by blast
  with send_valid [OF assms, of env addr w] run tr show ?thesis by auto
qed

lemma valid_steps_range:
  assumes "0 <s (s :: goint)" "s \<le>s e" "e <s 32"
  shows "0 < unat s \<and> unat s \<le> unat e \<and> unat e < 32"
proof -
  from assms have ss: "0 < sint s" "sint s \<le> sint e" "sint e < 32"
    by (simp_all add: word_sless_alt word_sle_eq)
  moreover have "unat s = nat (sint s)" "unat e = nat (sint e)"
    using ss by (simp_all add: unat_of_nonneg)
  ultimately show ?thesis by linarith
qed

lemma send_any_trace:
  assumes "send env fl [addr] w = Some (r, w')"
  shows "\<exists>tr. events w' = events w @ tr \<and>
           (tr = [] \<or> (\<exists>s e. 0 < s \<and> s \<le> e \<and> e < 32 \<and> trace_of env addr (powers s e) r tr))"
proof -
  from send_flags_cases [of env fl addr w] show ?thesis
  proof (elim disjE exE conjE)
    fix s e
    assume se: "0 < s" "s \<le> e" "e < 32"
      and "send env fl [addr] w = Some (run_sizes env addr (powers s e) w)"
    with assms have run: "run_sizes env addr (powers s e) w = (r, w')" by simp
    from se have "e < 63" by simp
    from run_sizes_trace [OF sint_powers [OF this] run] se show ?thesis by blast
  qed (use assms in auto)
qed


text \<open>The older copy of \<open>send\<close> is \<open>send\<close> with the start step 2 and the end step 25.\<close>

lemma send_fixed_is_send:
  "send_fixed env args w =
   send env \<lparr>respDelay = d, sendStartStep = Some 2, sendEndStep = Some 25\<rparr> args w"
proof -
  have "(0 :: goint) <s 2" "\<not> (32 :: goint) \<le>s 2" "(0 :: goint) <s 25" "\<not> (32 :: goint) \<le>s 25"
    "\<not> (25 :: goint) < 2"
    by (simp_all add: word_sless_alt word_sle_eq)
  then show ?thesis
    by (simp add: send_fixed_def send_def split: list.split)
qed

section \<open>The claims about \<open>send\<close>\<close>

lemma doubling_powers:
  "Suc i < length (map (\<lambda>i. 2 ^ i :: nat) [s ..< Suc e]) \<Longrightarrow>
   map (\<lambda>i. 2 ^ i :: nat) [s ..< Suc e] ! Suc i = 2 * map (\<lambda>i. 2 ^ i) [s ..< Suc e] ! i"
  by (simp del: upt_Suc)

lemma unat_small [simp]: "unat (1 :: goint) = 1" "unat (25 :: goint) = 25"
  by simp_all

text \<open>
  Claim C1. With 0 < start \<le> end < 32 and every request answered 200, \<open>send\<close> returns
  \<open>nil\<close> and the bodies it has sent have the lengths 2^start, 2^(start+1), ..., 2^end,
  in this order, each twice the one before. With the default flags the lengths are
  2^1, ..., 2^25. The older copy, which has no flags, sends 2^2, ..., 2^25.
\<close>

theorem send_sizes_are_powers_of_two:
  assumes "\<forall>k. rand_fail env k = None" and "url_error env addr = None"
    and "\<forall>k q. client_do env k q = Inr 200"
  shows "(sendStartStep fl = Some s \<and> sendEndStep fl = Some e \<and> 0 <s s \<and> s \<le>s e \<and> e <s 32 \<longrightarrow>
           (\<exists>w'. send env fl [addr] world0 = Some (Return None, w') \<and>
              sent_sizes (events w') = map (\<lambda>i. 2 ^ i) [unat s ..< Suc (unat e)] \<and>
              (\<forall>i. Suc i < length (sent_sizes (events w')) \<longrightarrow>
                 sent_sizes (events w') ! Suc i = 2 * sent_sizes (events w') ! i))) \<and>
         (\<exists>w'. send env flag_defaults [addr] world0 = Some (Return None, w') \<and>
            sent_sizes (events w') = map (\<lambda>i. 2 ^ i) [1 ..< 26]) \<and>
         (\<exists>w'. send_fixed env [addr] world0 = Some (Return None, w') \<and>
            sent_sizes (events w') = map (\<lambda>i. 2 ^ i) [2 ..< 26])"
proof -
  have main: "\<exists>w'. send env fl' [addr] world0 = Some (Return None, w') \<and>
      sent_sizes (events w') = map (\<lambda>i. 2 ^ i) [unat s' ..< Suc (unat e')]"
    if v: "sendStartStep fl' = Some s'" "sendEndStep fl' = Some e'"
      "0 <s s'" "s' \<le>s e'" "e' <s 32" for fl' s' e'
  proof -
    from send_valid_trace [OF v, of env addr world0] obtain x w' tr where
      r: "send env fl' [addr] world0 = Some (Return x, w')" "events w' = events world0 @ tr"
        "trace_of env addr (powers (unat s') (unat e')) (Return x) tr"
      by blast
    from trace_of_all_ok [OF r(3) assms] have x: "x = None" by simp
    from valid_steps_range [OF v(3-5)] have rng: "0 < unat s'" "unat e' < 63" by simp_all
    from trace_of_nil [OF r(3)] x have "sent_sizes tr = map body_len (powers (unat s') (unat e'))"
      by simp
    with rng have "sent_sizes tr = map (\<lambda>i. 2 ^ i) [unat s' ..< Suc (unat e')]"
      by (simp only: body_len_powers)
    with r x show ?thesis by (simp add: world0_def)
  qed
  have "0 <s (1 :: goint)" "(1 :: goint) \<le>s 25" "(25 :: goint) <s 32"
    by (simp_all add: word_sless_alt word_sle_eq)
  from main [of flag_defaults 1 25, OF _ _ this]
  have dflt: "\<exists>w'. send env flag_defaults [addr] world0 = Some (Return None, w') \<and>
      sent_sizes (events w') = map (\<lambda>i. 2 ^ i) [1 ..< 26]"
    by (simp add: flag_defaults_def)
  have "0 <s (2 :: goint)" "(2 :: goint) \<le>s 25" "(25 :: goint) <s 32"
    by (simp_all add: word_sless_alt word_sle_eq)
  from main [of "steps 2 25" 2 25, OF _ _ this]
  have old: "\<exists>w'. send_fixed env [addr] world0 = Some (Return None, w') \<and>
      sent_sizes (events w') = map (\<lambda>i. 2 ^ i) [2 ..< 26]"
    by (simp add: steps_def send_fixed_is_send [of env "[addr]" world0 "Some 0"])
  show ?thesis
  proof (intro conjI impI)
    assume "sendStartStep fl = Some s \<and> sendEndStep fl = Some e \<and> 0 <s s \<and> s \<le>s e \<and> e <s 32"
    then obtain w' where w': "send env fl [addr] world0 = Some (Return None, w')"
      "sent_sizes (events w') = map (\<lambda>i. 2 ^ i) [unat s ..< Suc (unat e)]"
      using main [of fl s e] by blast
    show "\<exists>w'. send env fl [addr] world0 = Some (Return None, w') \<and>
        sent_sizes (events w') = map (\<lambda>i. 2 ^ i) [unat s ..< Suc (unat e)] \<and>
        (\<forall>i. Suc i < length (sent_sizes (events w')) \<longrightarrow>
           sent_sizes (events w') ! Suc i = 2 * sent_sizes (events w') ! i)"
    proof (intro exI [of _ w'] conjI)
      show "\<forall>i. Suc i < length (sent_sizes (events w')) \<longrightarrow>
          sent_sizes (events w') ! Suc i = 2 * sent_sizes (events w') ! i"
        unfolding w'(2) using doubling_powers [of _ "unat s" "unat e"] by blast
    qed (rule w')+
  qed (rule dflt old)+
qed

theorem send_sizes_are_powers_of_two_witness:
  "(0 :: goint) <s 1 \<and> (1 :: goint) \<le>s 3 \<and> (3 :: goint) <s 32 \<and>
   (\<exists>w'. send ok_env (steps 1 3) [''http://localhost:8080''] world0 = Some (Return None, w') \<and>
      sent_sizes (events w') = [2, 4, 8])"
proof -
  have v: "(0 :: goint) <s 1 \<and> (1 :: goint) \<le>s 3 \<and> (3 :: goint) <s 32"
    by (simp add: word_sless_alt word_sle_eq)
  have up: "[Suc 0 ..< 4] = [1, 2, 3]" by (simp add: upt_rec)
  have "unat (3 :: goint) = 3" by simp
  with v up show ?thesis
    using send_sizes_are_powers_of_two
      [of ok_env "''http://localhost:8080''" "steps 1 3" 1 3]
    by (simp add: ok_env_def steps_def) blast
qed


lemma length_powers: "length (powers s e) = Suc e - s"
  by (simp add: powers_def del: upt_Suc)

lemma length_sent_sizes: "length (sent_sizes tr) = length (puts tr)"
  by (simp add: sent_sizes_def)

text \<open>
  Claim C7. With 0 < start \<le> end < 32 the call of \<open>send\<close> returns, whatever the
  surroundings do, after at most end - start + 1 passes through the loop; when every
  request succeeds it makes exactly end - start + 1 passes and as many requests.
\<close>

theorem send_loop_terminates:
  assumes "sendStartStep fl = Some s" and "sendEndStep fl = Some e"
    and "0 <s s" and "s \<le>s e" and "e <s 32"
  shows "(\<exists>x w'. send env fl [addr] world0 = Some (Return x, w') \<and>
            length (sendings (events w')) \<le> unat e - unat s + 1) \<and>
         ((\<forall>k. rand_fail env k = None) \<and> url_error env addr = None \<and>
          (\<forall>k q. client_do env k q = Inr 200) \<longrightarrow>
            (\<exists>w'. send env fl [addr] world0 = Some (Return None, w') \<and>
               length (sendings (events w')) = unat e - unat s + 1 \<and>
               length (puts (events w')) = unat e - unat s + 1))"
proof -
  from send_valid_trace [OF assms, of env addr world0] obtain x w' tr where
    r: "send env fl [addr] world0 = Some (Return x, w')" "events w' = events world0 @ tr"
      "trace_of env addr (powers (unat s) (unat e)) (Return x) tr"
    by blast
  from r(2) have ev: "events w' = tr" by (simp add: world0_def)
  from valid_steps_range [OF assms(3-5)] have rng: "unat s \<le> unat e" by simp
  have len: "length (powers (unat s) (unat e)) = unat e - unat s + 1"
    using rng by (simp add: length_powers)
  have "length (sendings tr) \<le> length (powers (unat s) (unat e))"
    using trace_of_sendings [OF r(3)] by (rule prefix_length_le)
  with r(1) ev len have first: "\<exists>x w'. send env fl [addr] world0 = Some (Return x, w') \<and>
      length (sendings (events w')) \<le> unat e - unat s + 1"
    by auto
  have second: "\<exists>w'. send env fl [addr] world0 = Some (Return None, w') \<and>
      length (sendings (events w')) = unat e - unat s + 1 \<and>
      length (puts (events w')) = unat e - unat s + 1"
    if ok: "\<forall>k. rand_fail env k = None" "url_error env addr = None"
      "\<forall>k q. client_do env k q = Inr 200"
  proof -
    from trace_of_all_ok [OF r(3) ok] have x: "x = None" by simp
    from trace_of_nil [OF r(3)] x have
      "sendings tr = powers (unat s) (unat e)"
      "sent_sizes tr = map body_len (powers (unat s) (unat e))"
      by simp_all
    then have "length (sendings tr) = unat e - unat s + 1"
      "length (sent_sizes tr) = unat e - unat s + 1"
      using len by simp_all
    with r(1) x ev show ?thesis by (simp add: length_sent_sizes)
  qed
  from first second show ?thesis by blast
qed

theorem send_loop_terminates_witness:
  "(0 :: goint) <s 2 \<and> (2 :: goint) \<le>s 5 \<and> (5 :: goint) <s 32 \<and>
   (\<exists>w'. send ok_env (steps 2 5) [''http://localhost:8080''] world0 = Some (Return None, w') \<and>
      length (sendings (events w')) = 4 \<and> length (puts (events w')) = 4)"
proof -
  have v: "(0 :: goint) <s 2" "(2 :: goint) \<le>s 5" "(5 :: goint) <s 32"
    by (simp_all add: word_sless_alt word_sle_eq)
  have u: "unat (5 :: goint) - unat (2 :: goint) + 1 = 4" by simp
  from send_loop_terminates [of "steps 2 5" 2 5 ok_env "''http://localhost:8080''", OF _ _ v]
  have "\<exists>w'. send ok_env (steps 2 5) [''http://localhost:8080''] world0 = Some (Return None, w') \<and>
      length (sendings (events w')) = 4 \<and> length (puts (events w')) = 4"
    unfolding u by (simp add: ok_env_def steps_def)
  with v show ?thesis by blast
qed

text \<open>
  Claim C3, as stated, fails: called with no address, \<open>send\<close> returns an error
  although no request was made, so none has failed.
\<close>

theorem send_error_without_failed_request:
  "send ok_env flag_defaults [] world0 = Some (Return (Some SendArgs), emit PrintUsage world0) \<and>
   puts (events (emit PrintUsage world0)) = []"
  by (simp add: send_def emit_def world0_def)

text \<open>
  Claim C3, amended. Once the address and the step flags are accepted
  (0 < start \<le> end < 32), and when neither \<open>rand.Read\<close> nor \<open>http.NewRequest\<close>
  fails, \<open>send\<close> returns an error exactly when one of its requests ended with a
  transport error or a status other than 200. Only the last request made can be such a
  one, the lengths sent are a prefix of 2^start, ..., 2^end, and \<open>nil\<close> is returned
  exactly when all of these lengths were sent and every answer was 200.
\<close>

theorem send_error_iff_request_failed:
  assumes "sendStartStep fl = Some s" and "sendEndStep fl = Some e"
    and "0 <s s" and "s \<le>s e" and "e <s 32"
    and "\<forall>k. rand_fail env k = None" and "url_error env addr = None"
  shows "\<exists>x w'. send env fl [addr] world0 = Some (Return x, w') \<and>
           (x \<noteq> None \<longleftrightarrow> (\<exists>p\<in>set (puts (events w')). failed (snd p))) \<and>
           (\<forall>p\<in>set (butlast (puts (events w'))). snd p = Inr 200) \<and>
           prefix (sent_sizes (events w')) (map (\<lambda>i. 2 ^ i) [unat s ..< Suc (unat e)]) \<and>
           (x = None \<longleftrightarrow>
              sent_sizes (events w') = map (\<lambda>i. 2 ^ i) [unat s ..< Suc (unat e)] \<and>
              (\<forall>p\<in>set (puts (events w')). snd p = Inr 200))"
proof -
  from send_valid_trace [OF assms(1-5), of env addr world0] obtain x w' tr where
    r: "send env fl [addr] world0 = Some (Return x, w')" "events w' = events world0 @ tr"
      "trace_of env addr (powers (unat s) (unat e)) (Return x) tr"
    by blast
  from r(2) have ev: "events w' = tr" by (simp add: world0_def)
  from valid_steps_range [OF assms(3-5)] have rng: "0 < unat s" "unat e < 63" by simp_all
  note full = body_len_powers [OF rng]
  have ok200: "\<not> failed (Inr 200)" by (simp add: failed_def)
  have nil: "sent_sizes tr = map (\<lambda>i. 2 ^ i) [unat s ..< Suc (unat e)] \<and>
      (\<forall>p\<in>set (puts tr). snd p = Inr 200)" if "x = None"
    using trace_of_nil [OF r(3)] that full by simp
  have err: "puts tr \<noteq> [] \<and> failed (snd (last (puts tr)))" if "x \<noteq> None"
    using trace_of_error [OF r(3) _ assms(6,7)] that by simp
  have a: "x \<noteq> None \<longleftrightarrow> (\<exists>p\<in>set (puts tr). failed (snd p))"
  proof
    assume "x \<noteq> None"
    from err [OF this] show "\<exists>p\<in>set (puts tr). failed (snd p)"
      using last_in_set by blast
  next
    assume f: "\<exists>p\<in>set (puts tr). failed (snd p)"
    show "x \<noteq> None"
    proof
      assume "x = None"
      from nil [OF this] f ok200 show False by auto
    qed
  qed
  have b: "\<forall>p\<in>set (butlast (puts tr)). snd p = Inr 200"
    by (rule trace_of_butlast [OF r(3)])
  have c: "prefix (sent_sizes tr) (map (\<lambda>i. 2 ^ i) [unat s ..< Suc (unat e)])"
    using trace_of_sizes [OF r(3)] by (simp only: full)
  have d: "x = None \<longleftrightarrow>
      sent_sizes tr = map (\<lambda>i. 2 ^ i) [unat s ..< Suc (unat e)] \<and>
      (\<forall>p\<in>set (puts tr). snd p = Inr 200)"
  proof
    assume "x = None"
    from nil [OF this] show "sent_sizes tr = map (\<lambda>i. 2 ^ i) [unat s ..< Suc (unat e)] \<and>
      (\<forall>p\<in>set (puts tr). snd p = Inr 200)" .
  next
    assume all: "sent_sizes tr = map (\<lambda>i. 2 ^ i) [unat s ..< Suc (unat e)] \<and>
      (\<forall>p\<in>set (puts tr). snd p = Inr 200)"
    show "x = None"
    proof (rule ccontr)
      assume "x \<noteq> None"
      from err [OF this] have "last (puts tr) \<in> set (puts tr)" "failed (snd (last (puts tr)))"
        by simp_all
      with all ok200 show False by auto
    qed
  qed
  from r(1) a b c d show ?thesis unfolding ev [symmetric] by blast
qed

lemma flaky_run:
  "send flaky_env (steps 1 3) [''http://localhost:8080''] world0 =
   Some (Return (Some (Not200 503)),
     \<lparr>events =
      [Log (SendingBytes 2),
       HttpDo \<lparr>req_method = ''PUT'', req_url = ''http://localhost:8080'', req_body = ''00''\<rparr>
         (Inr 200),
       Log (SendingBytes 4),
       HttpDo \<lparr>req_method = ''PUT'', req_url = ''http://localhost:8080'', req_body = ''0102''\<rparr>
         (Inr 503)],
      rand_pos = 3, rand_calls = 2, do_calls = 2\<rparr>)"
  by code_simp

theorem send_error_iff_request_failed_witness:
  "(0 :: goint) <s 1 \<and> (1 :: goint) \<le>s 3 \<and> (3 :: goint) <s 32 \<and>
   (\<exists>w'. send flaky_env (steps 1 3) [''http://localhost:8080''] world0 =
            Some (Return (Some (Not200 503)), w') \<and>
      sent_sizes (events w') = [2, 4] \<and>
      prefix (sent_sizes (events w')) [2, 4, 8] \<and>
      (\<exists>p\<in>set (puts (events w')). failed (snd p)))"
proof -
  have v: "(0 :: goint) <s 1" "(1 :: goint) \<le>s 3" "(3 :: goint) <s 32"
    by (simp_all add: word_sless_alt word_sle_eq)
  have up: "map (\<lambda>i. 2 ^ i) [unat (1 :: goint) ..< Suc (unat (3 :: goint))] = [2, 4, 8 :: nat]"
    by (simp add: upt_rec)
  from send_error_iff_request_failed
    [of "steps 1 3" 1 3 flaky_env "''http://localhost:8080''", OF _ _ v]
  have "\<exists>w'. send flaky_env (steps 1 3) [''http://localhost:8080''] world0 =
            Some (Return (Some (Not200 503)), w') \<and>
      sent_sizes (events w') = [2, 4] \<and>
      prefix (sent_sizes (events w')) [2, 4, 8] \<and>
      (\<exists>p\<in>set (puts (events w')). failed (snd p))"
    unfolding up flaky_run by (simp add: flaky_env_def steps_def sent_sizes_def)
  with v show ?thesis by blast
qed

lemma trace_of_announced:
  "trace_of env addr ns r tr \<Longrightarrow> prefix (sent_sizes tr) (map body_len (sendings tr))"
  by (induction rule: trace_of.induct) simp_all

lemma half_pow2: "0 < k \<Longrightarrow> k < 63 \<Longrightarrow> nat (sint (2 ^ k :: goint) sdiv 2) = 2 ^ k div 2"
proof -
  assume k: "0 < k" "k < 63"
  have "2 * nat (sint (2 ^ k :: goint) sdiv 2) = 2 ^ k"
    using body_len_pow2 [OF k] by (simp only: body_len_def)
  then show ?thesis by linarith
qed

lemma put_request_shape:
  assumes "0 < k" "k < 63"
  shows "req_method (put_request env addr (2 ^ k) pos) = ''PUT'' \<and>
         req_url (put_request env addr (2 ^ k) pos) = addr \<and>
         req_body (put_request env addr (2 ^ k) pos) =
           EncodeToString (map (rand_stream env) [pos ..< pos + 2 ^ k div 2]) \<and>
         length (req_body (put_request env addr (2 ^ k) pos)) = 2 ^ k"
proof -
  have "length (req_body (put_request env addr (2 ^ k) pos)) = body_len (2 ^ k)"
    by (simp add: put_request_def body_len_def length_EncodeToString)
  then show ?thesis
    by (simp add: put_request_def half_pow2 [OF assms] body_len_pow2 [OF assms])
qed

lemma powers_mem: "n \<in> set (powers s e) \<Longrightarrow> \<exists>k. s \<le> k \<and> k \<le> e \<and> n = 2 ^ k"
  by (auto simp: powers_def simp del: upt_Suc)

text \<open>
  Claim C2. Every request that \<open>send\<close> makes is a PUT to the address given. Its body
  is the encoding by \<open>hex.EncodeToString\<close> of n/2 consecutive bytes delivered by
  \<open>crypto/rand\<close>, where n = 2^k is the size of that pass; the body has n characters, all
  of them among \<open>0123456789abcdef\<close>, and n is the size that was announced in the log
  before the request. (That the bytes are random is a property of \<open>crypto/rand\<close>, which
  is outside this development.)
\<close>

theorem send_request_shape:
  assumes "send env fl [addr] world0 = Some (r, w')"
  shows "(\<forall>p\<in>set (puts (events w')).
            req_method (fst p) = ''PUT'' \<and> req_url (fst p) = addr \<and>
            (\<exists>k pos. 0 < k \<and> k < 32 \<and>
               req_body (fst p) =
                 EncodeToString (map (rand_stream env) [pos ..< pos + 2 ^ k div 2]) \<and>
               length (req_body (fst p)) = 2 ^ k) \<and>
            set (req_body (fst p)) \<subseteq> set ''0123456789abcdef'') \<and>
         prefix (sent_sizes (events w')) (map unat (sendings (events w')))"
proof -
  from send_any_trace [OF assms] obtain tr where
    ev: "events w' = events world0 @ tr" and
    tr: "tr = [] \<or> (\<exists>s e. 0 < s \<and> s \<le> e \<and> e < 32 \<and> trace_of env addr (powers s e) r tr)"
    by blast
  from ev have ev': "events w' = tr" by (simp add: world0_def)
  from tr show ?thesis
  proof
    assume "tr = []"
    then show ?thesis by (simp add: ev')
  next
    assume "\<exists>s e. 0 < s \<and> s \<le> e \<and> e < 32 \<and> trace_of env addr (powers s e) r tr"
    then obtain s e where se: "0 < s" "s \<le> e" "e < 32"
      and t: "trace_of env addr (powers s e) r tr" by blast
    have shape: "req_method (fst p) = ''PUT'' \<and> req_url (fst p) = addr \<and>
        (\<exists>k pos. 0 < k \<and> k < 32 \<and>
           req_body (fst p) =
             EncodeToString (map (rand_stream env) [pos ..< pos + 2 ^ k div 2]) \<and>
           length (req_body (fst p)) = 2 ^ k) \<and>
        set (req_body (fst p)) \<subseteq> set ''0123456789abcdef''"
      if p: "p \<in> set (puts tr)" for p
    proof -
      from trace_of_puts [OF t] p obtain n pos where
        n: "n \<in> set (powers s e)" and fp: "fst p = put_request env addr n pos" by blast
      from powers_mem [OF n] obtain k where k: "s \<le> k" "k \<le> e" "n = 2 ^ k" by blast
      with se have kk: "0 < k" "k < 63" "k < 32" by simp_all
      from put_request_shape [OF kk(1,2), of env addr pos] have
        sh: "req_method (fst p) = ''PUT''" "req_url (fst p) = addr"
          "req_body (fst p) = EncodeToString (map (rand_stream env) [pos ..< pos + 2 ^ k div 2])"
          "length (req_body (fst p)) = 2 ^ k"
        unfolding fp k(3) by blast+
      have "set (req_body (fst p)) \<subseteq> set ''0123456789abcdef''"
        unfolding sh(3) by (rule set_EncodeToString)
      with sh kk show ?thesis by blast
    qed
    have "set (sendings tr) \<subseteq> set (powers s e)"
      using trace_of_sendings [OF t] by (rule set_mono_prefix)
    then have "map body_len (sendings tr) = map unat (sendings tr)"
    proof (intro map_cong refl)
      fix n assume "n \<in> set (sendings tr)"
      with \<open>set (sendings tr) \<subseteq> set (powers s e)\<close> have "n \<in> set (powers s e)" by blast
      from powers_mem [OF this] obtain k where k: "s \<le> k" "k \<le> e" "n = 2 ^ k" by blast
      with se have kk: "0 < k" "k < 63" by simp_all
      show "body_len n = unat n"
        by (simp only: k(3) body_len_pow2 [OF kk] unat_pow2 [OF kk(2)])
    qed
    with trace_of_announced [OF t] have "prefix (sent_sizes tr) (map unat (sendings tr))"
      by simp
    with shape show ?thesis by (simp add: ev')
  qed
qed

lemma ok_run:
  "send ok_env (steps 1 2) [''http://localhost:8080''] world0 =
   Some (Return None,
     \<lparr>events =
      [Log (SendingBytes 2),
       HttpDo \<lparr>req_method = ''PUT'', req_url = ''http://localhost:8080'', req_body = ''00''\<rparr>
         (Inr 200),
       Log (SendingBytes 4),
       HttpDo \<lparr>req_method = ''PUT'', req_url = ''http://localhost:8080'', req_body = ''0102''\<rparr>
         (Inr 200)],
      rand_pos = 3, rand_calls = 2, do_calls = 2\<rparr>)"
  by code_simp

theorem send_request_shape_witness:
  "send ok_env (steps 1 2) [''http://localhost:8080''] world0 =
   Some (Return None,
     \<lparr>events =
      [Log (SendingBytes 2),
       HttpDo \<lparr>req_method = ''PUT'', req_url = ''http://localhost:8080'', req_body = ''00''\<rparr>
         (Inr 200),
       Log (SendingBytes 4),
       HttpDo \<lparr>req_method = ''PUT'', req_url = ''http://localhost:8080'', req_body = ''0102''\<rparr>
         (Inr 200)],
      rand_pos = 3, rand_calls = 2, do_calls = 2\<rparr>) \<and>
   set ''0102'' \<subseteq> set ''0123456789abcdef'' \<and>
   prefix [2, 4] (map unat [2, 4 :: goint])"
  using send_request_shape [OF ok_run] ok_run by (simp add: sent_sizes_def)

section \<open>The handler\<close>

lemma handler_events:
  "in_method r \<noteq> ''GET'' \<Longrightarrow>
   handler fl r tr =
     tr @ Log ReceivedRequest #
       (case respDelay fl of
          Some d \<Rightarrow> if 0 <s d then [Log (Waiting d), Sleep d] else []
        | None \<Rightarrow> []) @
       ReadAll (length (in_body r)) (in_err r) #
       (case in_err r of
          Some e \<Rightarrow> [Log (ErrorReadingBody e), WriteHeader 500]
        | None \<Rightarrow> [Log (ReadBytes (length (in_body r)))])"
  by (simp add: handler_def Let_def split: option.split)

lemma handler_fixed_events:
  "handler_fixed fl r tr =
     tr @ Log ReceivedRequest #
       (case respDelay fl of
          Some d \<Rightarrow> if 0 <s d then [Log (Waiting d), Sleep d] else []
        | None \<Rightarrow> []) @
       ReadAll (length (in_body r)) (in_err r) #
       (case in_err r of
          Some e \<Rightarrow> [Log (ErrorReadingBody e), WriteHeader 500]
        | None \<Rightarrow> [Log (ReadBytes (length (in_body r)))])"
  by (simp add: handler_fixed_def Let_def split: option.split)

lemma handler_get: "in_method r = ''GET'' \<Longrightarrow> handler fl r tr = tr"
  by (simp add: handler_def)

section \<open>The claims about \<open>listen\<close>\<close>

text \<open>
  Claim C4, as stated, fails: when \<open>io.ReadAll\<close> returns three bytes and an error, the
  handler logs the error and no count of bytes; for a GET request it logs nothing.
\<close>

theorem handler_read_error_logs_no_size:
  "handler flag_defaults
     \<lparr>in_method = ''PUT'', in_body = [1, 2, 3], in_err = Some ''unexpected EOF''\<rparr> [] =
   [Log ReceivedRequest, ReadAll 3 (Some ''unexpected EOF''),
    Log (ErrorReadingBody ''unexpected EOF''), WriteHeader 500] \<and>
   handler flag_defaults \<lparr>in_method = ''GET'', in_body = [1, 2, 3], in_err = None\<rparr> [] = []"
  by (simp add: handler_def flag_defaults_def)

text \<open>
  Claim C4, amended. For every request whose method is not GET and whose body is read
  without error, the handler logs the number of bytes read, as its last action, right
  after the read. A GET request, and a request whose read fails, log no number of
  bytes. The older copy has no test for GET: there the same holds for every request
  read without error.
\<close>

theorem handler_logs_body_size:
  "(in_method r \<noteq> ''GET'' \<and> in_err r = None \<longrightarrow>
      (\<exists>pre. handler fl r tr =
         tr @ pre @ [ReadAll (length (in_body r)) None,
                     Log (ReadBytes (length (in_body r)))])) \<and>
   (in_method r = ''GET'' \<or> in_err r \<noteq> None \<longrightarrow>
      (\<forall>n. Log (ReadBytes n) \<notin> set (handler fl r []))) \<and>
   (in_err r = None \<longrightarrow>
      (\<exists>pre. handler_fixed fl r tr =
         tr @ pre @ [ReadAll (length (in_body r)) None,
                     Log (ReadBytes (length (in_body r)))])) \<and>
   (in_err r \<noteq> None \<longrightarrow> (\<forall>n. Log (ReadBytes n) \<notin> set (handler_fixed fl r [])))"
proof -
  let ?mid = "Log ReceivedRequest #
       (case respDelay fl of
          Some d \<Rightarrow> if 0 <s d then [Log (Waiting d), Sleep d] else []
        | None \<Rightarrow> [])"
  have a: "\<exists>pre. handler_fixed fl r tr =
      tr @ pre @ [ReadAll (length (in_body r)) None, Log (ReadBytes (length (in_body r)))]"
    if "in_err r = None"
  proof -
    have "handler_fixed fl r tr =
        tr @ ?mid @ [ReadAll (length (in_body r)) None, Log (ReadBytes (length (in_body r)))]"
      by (simp add: handler_fixed_events that)
    then show ?thesis by blast
  qed
  have b: "\<exists>pre. handler fl r tr =
      tr @ pre @ [ReadAll (length (in_body r)) None, Log (ReadBytes (length (in_body r)))]"
    if "in_method r \<noteq> ''GET''" "in_err r = None"
  proof -
    have "handler fl r tr =
        tr @ ?mid @ [ReadAll (length (in_body r)) None, Log (ReadBytes (length (in_body r)))]"
      by (simp add: handler_events [OF that(1)] that(2))
    then show ?thesis by blast
  qed
  have c: "\<forall>n. Log (ReadBytes n) \<notin> set (handler_fixed fl r [])" if "in_err r \<noteq> None"
    using that by (auto simp: handler_fixed_events split: option.splits)
  have d: "\<forall>n. Log (ReadBytes n) \<notin> set (handler fl r [])"
    if "in_method r = ''GET'' \<or> in_err r \<noteq> None"
  proof (cases "in_method r = ''GET''")
    case True
    then show ?thesis by (simp add: handler_get)
  next
    case False
    with that have "in_err r \<noteq> None" by simp
    then show ?thesis by (auto simp: handler_events [OF False] split: option.splits)
  qed
  from a b c d show ?thesis by blast
qed

theorem handler_logs_body_size_witness:
  "(\<exists>pre. handler flag_defaults \<lparr>in_method = ''PUT'', in_body = [7, 8], in_err = None\<rparr> [] =
      pre @ [ReadAll 2 None, Log (ReadBytes 2)]) \<and>
   Log (ReadBytes 2) \<notin> set (handler flag_defaults
      \<lparr>in_method = ''PUT'', in_body = [7, 8], in_err = Some ''reset''\<rparr> [])"
  using handler_logs_body_size
      [of "\<lparr>in_method = ''PUT'', in_body = [7, 8], in_err = None\<rparr>" flag_defaults "[]"]
    handler_logs_body_size
      [of "\<lparr>in_method = ''PUT'', in_body = [7, 8], in_err = Some ''reset''\<rparr>" flag_defaults]
  by (simp add: numeral_2_eq_2)

text \<open>
  Claim C5, as stated, fails: with a delay of one second the handler does not sleep
  on a GET request.
\<close>

theorem handler_get_does_not_sleep:
  "(0 :: duration) <s 1000000000 \<and>
   Sleep 1000000000 \<notin> set (handler \<lparr>respDelay = Some 1000000000, sendStartStep = Some 1,
       sendEndStep = Some 25\<rparr> \<lparr>in_method = ''GET'', in_body = [], in_err = None\<rparr> [])"
  by (simp add: handler_def word_sless_alt)

text \<open>
  Claim C5, amended. For every request whose method is not GET, the handler sleeps for
  the duration \<open>d\<close> before it reads the body exactly when \<open>resp-delay\<close> is \<open>d\<close>
  and \<open>d\<close> is greater than zero, and it sleeps at no other moment; with the default
  flags it does not sleep. In the older copy this holds for every request.
\<close>

theorem handler_sleeps_iff_delay_positive:
  assumes "in_method r \<noteq> ''GET''"
  shows "(Sleep d \<in> set (before_read (handler fl r [])) \<longleftrightarrow> respDelay fl = Some d \<and> 0 <s d) \<and>
         (Sleep d \<in> set (handler fl r []) \<longleftrightarrow> respDelay fl = Some d \<and> 0 <s d) \<and>
         (\<exists>n err. ReadAll n err \<in> set (handler fl r [])) \<and>
         (\<forall>x. Sleep x \<notin> set (handler flag_defaults r [])) \<and>
         (Sleep d \<in> set (before_read (handler_fixed fl q [])) \<longleftrightarrow>
            respDelay fl = Some d \<and> 0 <s d) \<and>
         (Sleep d \<in> set (handler_fixed fl q []) \<longleftrightarrow> respDelay fl = Some d \<and> 0 <s d)"
proof -
  have a: "Sleep d \<in> set (before_read (handler fl r [])) \<longleftrightarrow> respDelay fl = Some d \<and> 0 <s d"
    by (auto simp: handler_events [OF assms] before_read_def split: option.split)
  have b: "Sleep d \<in> set (handler fl r []) \<longleftrightarrow> respDelay fl = Some d \<and> 0 <s d"
    by (auto simp: handler_events [OF assms] split: option.split)
  have c: "\<exists>n err. ReadAll n err \<in> set (handler fl r [])"
    by (auto simp: handler_events [OF assms])
  have d: "\<forall>x. Sleep x \<notin> set (handler flag_defaults r [])"
    by (auto simp: handler_events [OF assms] flag_defaults_def split: option.split)
  have e: "Sleep d \<in> set (before_read (handler_fixed fl q [])) \<longleftrightarrow>
      respDelay fl = Some d \<and> 0 <s d"
    by (auto simp: handler_fixed_events before_read_def split: option.split)
  have f: "Sleep d \<in> set (handler_fixed fl q []) \<longleftrightarrow> respDelay fl = Some d \<and> 0 <s d"
    by (auto simp: handler_fixed_events split: option.split)
  from a b c d e f show ?thesis by blast
qed

theorem handler_sleeps_iff_delay_positive_witness:
  "Sleep 5 \<in> set (before_read (handler \<lparr>respDelay = Some 5, sendStartStep = Some 1,
       sendEndStep = Some 25\<rparr> \<lparr>in_method = ''PUT'', in_body = [1], in_err = None\<rparr> [])) \<and>
   Sleep 0 \<notin> set (handler flag_defaults \<lparr>in_method = ''PUT'', in_body = [1], in_err = None\<rparr> [])"
proof -
  have p: "(0 :: duration) <s 5" by (simp add: word_sless_alt)
  have "in_method \<lparr>in_method = ''PUT'', in_body = [1 :: byte], in_err = None\<rparr> \<noteq> ''GET''"
    by simp
  from handler_sleeps_iff_delay_positive [OF this] p show ?thesis by simp
qed

text \<open>
  Claim C9. On a request whose method is GET the handler returns at once: it adds no
  event, so it logs nothing, does not sleep and does not read the body.
\<close>

theorem handler_ignores_get:
  assumes "in_method r = ''GET''"
  shows "handler fl r tr = tr"
  using assms by (simp add: handler_def)

theorem handler_ignores_get_witness:
  "handler \<lparr>respDelay = Some 250, sendStartStep = Some 1, sendEndStep = Some 25\<rparr>
     \<lparr>in_method = ''GET'', in_body = [9, 9], in_err = Some ''reset''\<rparr> [PrintUsage] = [PrintUsage]"
  using handler_ignores_get
    [of "\<lparr>in_method = ''GET'', in_body = [9, 9], in_err = Some ''reset''\<rparr>"]
  by simp


text \<open>
  Claim C10. The handler calls \<open>WriteHeader(500)\<close> exactly when its read of the body
  fails, and it writes no other status. When the read succeeds it writes no status, and
  the client gets the 200 that \<open>net/http\<close> sends for a handler that wrote none. The
  handler never writes a body: there is no such call in the source, and no such event
  here.
\<close>

theorem handler_status_500_iff_read_fails:
  "(WriteHeader 500 \<in> set (handler fl r []) \<longleftrightarrow>
      (\<exists>n e. ReadAll n (Some e) \<in> set (handler fl r []))) \<and>
   (WriteHeader 500 \<in> set (handler fl r []) \<longleftrightarrow> in_method r \<noteq> ''GET'' \<and> in_err r \<noteq> None) \<and>
   (\<forall>c. WriteHeader c \<in> set (handler fl r []) \<longrightarrow> c = 500) \<and>
   ((\<exists>n. ReadAll n None \<in> set (handler fl r [])) \<longrightarrow>
      written_status (handler fl r []) = None \<and> response_status (handler fl r []) = 200) \<and>
   (WriteHeader 500 \<in> set (handler_fixed fl r []) \<longleftrightarrow>
      (\<exists>n e. ReadAll n (Some e) \<in> set (handler_fixed fl r []))) \<and>
   (WriteHeader 500 \<in> set (handler_fixed fl r []) \<longleftrightarrow> in_err r \<noteq> None) \<and>
   ((\<exists>n. ReadAll n None \<in> set (handler_fixed fl r [])) \<longrightarrow>
      written_status (handler_fixed fl r []) = None \<and>
      response_status (handler_fixed fl r []) = 200)"
proof -
  have fixed:
    "(WriteHeader 500 \<in> set (handler_fixed fl r []) \<longleftrightarrow>
        (\<exists>n e. ReadAll n (Some e) \<in> set (handler_fixed fl r []))) \<and>
     (WriteHeader 500 \<in> set (handler_fixed fl r []) \<longleftrightarrow> in_err r \<noteq> None) \<and>
     (\<forall>c. WriteHeader c \<in> set (handler_fixed fl r []) \<longrightarrow> c = 500) \<and>
     ((\<exists>n. ReadAll n None \<in> set (handler_fixed fl r [])) \<longrightarrow>
        written_status (handler_fixed fl r []) = None \<and>
        response_status (handler_fixed fl r []) = 200)"
    by (auto simp: handler_fixed_events response_status_def split: option.splits)
  have main:
    "(WriteHeader 500 \<in> set (handler fl r []) \<longleftrightarrow>
        (\<exists>n e. ReadAll n (Some e) \<in> set (handler fl r []))) \<and>
     (WriteHeader 500 \<in> set (handler fl r []) \<longleftrightarrow> in_method r \<noteq> ''GET'' \<and> in_err r \<noteq> None) \<and>
     (\<forall>c. WriteHeader c \<in> set (handler fl r []) \<longrightarrow> c = 500) \<and>
     ((\<exists>n. ReadAll n None \<in> set (handler fl r [])) \<longrightarrow>
        written_status (handler fl r []) = None \<and> response_status (handler fl r []) = 200)"
  proof (cases "in_method r = ''GET''")
    case True
    have "handler fl r [] = []" by (rule handler_get [OF True])
    with True show ?thesis by (simp add: response_status_def)
  next
    case False
    have "handler fl r [] = handler_fixed fl r []"
      by (simp only: handler_events [OF False] handler_fixed_events)
    then show ?thesis using False fixed by auto
  qed
  from main fixed show ?thesis by (intro conjI) (elim conjE, assumption)+
qed

theorem handler_status_500_iff_read_fails_witness:
  "WriteHeader 500 \<in> set (handler flag_defaults
      \<lparr>in_method = ''POST'', in_body = [1], in_err = Some ''timeout''\<rparr> []) \<and>
   response_status (handler flag_defaults
      \<lparr>in_method = ''POST'', in_body = [1, 2], in_err = None\<rparr> []) = 200"
  using handler_status_500_iff_read_fails
      [of flag_defaults "\<lparr>in_method = ''POST'', in_body = [1], in_err = Some ''timeout''\<rparr>"]
    handler_status_500_iff_read_fails
      [of flag_defaults "\<lparr>in_method = ''POST'', in_body = [1, 2], in_err = None\<rparr>"]
  by (simp add: handler_def flag_defaults_def)

section \<open>The claims about the arguments and the flags\<close>

text \<open>
  Claim C6. When the arguments after the subcommand are not exactly one, \<open>listen\<close>
  and \<open>send\<close> print the usage text and return an error, and that is all they do: no
  handler is registered, no server is started, no request is made.
\<close>

theorem wrong_argument_count:
  assumes "length args \<noteq> 1"
  shows "listen serve args tr = (Return (Some ListenArgs), tr @ [PrintUsage]) \<and>
         send env fl args w = Some (Return (Some SendArgs), emit PrintUsage w) \<and>
         send_fixed env args w = Some (Return (Some SendArgs), emit PrintUsage w)"
proof (cases args)
  case Nil
  then show ?thesis by (simp add: listen_def send_def send_fixed_def)
next
  case (Cons a as)
  with assms obtain b bs where "as = b # bs" by (cases as) auto
  with Cons show ?thesis by (simp add: listen_def send_def send_fixed_def)
qed

theorem wrong_argument_count_witness:
  "listen (\<lambda>a. None) [''localhost:8080'', ''extra''] [] = (Return (Some ListenArgs), [PrintUsage]) \<and>
   send ok_env flag_defaults [''a'', ''b''] world0 =
     Some (Return (Some SendArgs), emit PrintUsage world0) \<and>
   puts (events (emit PrintUsage world0)) = []"
  using wrong_argument_count [of "[''localhost:8080'', ''extra'']" "\<lambda>a. None" "[]"]
    wrong_argument_count [of "[''a'', ''b'']" _ _ ok_env flag_defaults world0]
  by (simp add: emit_def world0_def)


text \<open>
  Claim C8. \<open>send\<close> checks its step flags before the first pass of the loop, and an
  error leaves the world as it was. A start step of 32 or more is an error; so is an end
  step of 32 or more; so is an end step below the start step, both taken after the
  defaults have been put in. A start step of zero or less acts as the start step 1, an
  end step of zero or less as the end step 25.
\<close>

theorem send_validates_step_flags:
  "(sendStartStep fl = Some s \<and> 32 \<le>s s \<longrightarrow>
      send env fl [addr] w = Some (Return (Some StartStepTooBig), w)) \<and>
   (sendEndStep fl = Some e \<and> 32 \<le>s e \<longrightarrow>
      send env fl [addr] w =
        Some (Return (Some (if \<exists>s'. sendStartStep fl = Some s' \<and> 32 \<le>s s'
                            then StartStepTooBig else EndStepTooBig)), w)) \<and>
   (sendStartStep fl = Some s \<and> sendEndStep fl = Some e \<and> 0 <s e \<and> e <s s \<and> s <s 32 \<longrightarrow>
      send env fl [addr] w = Some (Return (Some EndBeforeStart), w)) \<and>
   (sendStartStep fl = Some s \<and> s \<le>s 0 \<longrightarrow>
      send env fl args w = send env (fl\<lparr>sendStartStep := Some 1\<rparr>) args w) \<and>
   (sendEndStep fl = Some e \<and> e \<le>s 0 \<longrightarrow>
      send env fl args w = send env (fl\<lparr>sendEndStep := Some 25\<rparr>) args w)"
proof -
  have pos: "0 <s x" if "32 \<le>s x" for x :: goint
    using that by (simp add: word_sless_alt word_sle_eq)
  have a: "send env fl [addr] w = Some (Return (Some StartStepTooBig), w)"
    if "sendStartStep fl = Some s" "32 \<le>s s"
    using that pos [of s] by (simp add: send_def)
  have b: "send env fl [addr] w =
      Some (Return (Some (if \<exists>s'. sendStartStep fl = Some s' \<and> 32 \<le>s s'
                          then StartStepTooBig else EndStepTooBig)), w)"
    if "sendEndStep fl = Some e" "32 \<le>s e"
    using that pos [of e] pos by (auto simp: send_def split: option.split)
  have c: "send env fl [addr] w = Some (Return (Some EndBeforeStart), w)"
    if h: "sendStartStep fl = Some s" "sendEndStep fl = Some e" "0 <s e" "e <s s" "s <s 32"
  proof -
    from h have ss: "0 < sint e" "sint e < sint s" "sint s < 32"
      by (simp_all add: word_sless_alt)
    then have f: "0 <s s" "\<not> 32 \<le>s s" "\<not> 32 \<le>s e"
      by (simp_all add: word_sless_alt word_sle_eq)
    from ss have "unat e < unat s" by (simp add: unat_of_nonneg)
    then have "e < s" by (simp add: word_less_nat_alt)
    with h f show ?thesis by (simp add: send_def)
  qed
  have d: "send env fl args w = send env (fl\<lparr>sendStartStep := Some 1\<rparr>) args w"
    if "sendStartStep fl = Some s" "s \<le>s 0"
  proof -
    from that(2) have "\<not> 0 <s s" by (simp add: word_sless_alt word_sle_eq)
    moreover have "(0 :: goint) <s 1" "\<not> (32 :: goint) \<le>s 1"
      by (simp_all add: word_sless_alt word_sle_eq)
    ultimately show ?thesis using that(1) by (simp add: send_def split: list.split sum.split)
  qed
  have e: "send env fl args w = send env (fl\<lparr>sendEndStep := Some 25\<rparr>) args w"
    if "sendEndStep fl = Some e" "e \<le>s 0"
  proof -
    from that(2) have "\<not> 0 <s e" by (simp add: word_sless_alt word_sle_eq)
    moreover have "(0 :: goint) <s 25" "\<not> (32 :: goint) \<le>s 25"
      by (simp_all add: word_sless_alt word_sle_eq)
    ultimately show ?thesis using that(1) by (simp add: send_def split: list.split sum.split)
  qed
  from a b c d e show ?thesis by blast
qed

theorem send_validates_step_flags_witness:
  "send ok_env (steps 32 2) [''h''] world0 = Some (Return (Some StartStepTooBig), world0) \<and>
   send ok_env (steps 1 40) [''h''] world0 = Some (Return (Some EndStepTooBig), world0) \<and>
   send ok_env (steps 5 2) [''h''] world0 = Some (Return (Some EndBeforeStart), world0) \<and>
   send ok_env (steps (- 3) 2) [''h''] world0 = send ok_env (steps 1 2) [''h''] world0 \<and>
   send ok_env (steps 3 0) [''h''] world0 = send ok_env (steps 3 25) [''h''] world0"
proof -
  have v: "(32 :: goint) \<le>s 32" "(32 :: goint) \<le>s 40" "\<not> (32 :: goint) \<le>s 1"
    "(0 :: goint) <s 2" "(2 :: goint) <s 5" "(5 :: goint) <s 32"
    "(- 3 :: goint) \<le>s 0" "(0 :: goint) \<le>s 0"
    by (simp_all add: word_sless_alt word_sle_eq)
  show ?thesis
    using send_validates_step_flags [of "steps 32 2" 32 ok_env "''h''" world0 2]
      send_validates_step_flags [of "steps 1 40" 1 ok_env "''h''" world0 40]
      send_validates_step_flags [of "steps 5 2" 5 ok_env "''h''" world0 2]
      send_validates_step_flags [of "steps (- 3) 2" "- 3" ok_env "''h''" world0 2 "[''h'']"]
      send_validates_step_flags [of "steps 3 0" 3 ok_env "''h''" world0 0 "[''h'']"]
      v
    by (simp add: steps_def)
qed

end
